theory Spec2Isabelle
  imports Complex_Main
begin

section \<open>Data model\<close>

text \<open>
  The toolkit of \<^verbatim>\<open>API_work2.py\<close> works on tuples of pairs of Python floats.
  It is embedded twice.  The first embedding reads a finite float as a \<^typ>\<open>real\<close> and
  computes exactly: it carries the statements that are about exact real arithmetic or
  that involve no arithmetic.  The second embedding, with names ending in \<open>_f64\<close>,
  computes in IEEE 754 binary64 as CPython does: every operation rounds to nearest, ties to
  even, overflows to an infinity and propagates nan.  It carries the statements about what
  the program returns.
  A polygon (a tuple of points) is a list of points.  Where the source seeds a
  reduction with \<^verbatim>\<open>math.inf\<close>, the value is a \<open>pyfloat\<close>: a real or plus infinity.
\<close>

type_synonym point = "real \<times> real"

type_synonym polygon = "point list"

datatype error = ZeroDivisionError | ValueError

datatype pyfloat = Finite real | PosInf

type_synonym fpoint = "pyfloat \<times> pyfloat"

section \<open>Generators\<close>

definition gen_rectangle :: "real \<Rightarrow> real \<Rightarrow> polygon" where
  "gen_rectangle width height = [(0, 0), (0, height), (width, height), (width, 0)]"


definition hypot :: "real \<Rightarrow> real \<Rightarrow> real" where
  "hypot a b = sqrt (a * a + b * b)"



section \<open>Transforms\<close>

definition tr_translate :: "polygon \<Rightarrow> real \<Rightarrow> real \<Rightarrow> polygon" where
  "tr_translate poly dx dy = map (\<lambda>(x, y). (x + dx, y + dy)) poly"


definition tr_symmetry :: "polygon \<Rightarrow> string \<Rightarrow> polygon" where
  "tr_symmetry poly axis =
     (if axis = ''x'' then map (\<lambda>(x, y). (x, - y)) poly
      else map (\<lambda>(x, y). (- x, y)) poly)"


section \<open>Geometry kernel\<close>

text \<open>
  The loops of the kernel run over \<^verbatim>\<open>range(n)\<close> and read \<^verbatim>\<open>poly[i]\<close> and
  \<^verbatim>\<open>poly[(i + 1) % n]\<close>; both indices are below \<open>n\<close>, so no read is out of range.
\<close>

definition is_convex :: "polygon \<Rightarrow> bool" where
  "is_convex poly =
     (let n = length poly in
      if n < 3 then False
      else
        let cross_products =
              map (\<lambda>i.
                    let (x0, y0) = poly ! i;
                        (x1, y1) = poly ! ((i + 1) mod n);
                        (x2, y2) = poly ! ((i + 2) mod n)
                    in (x1 - x0) * (y2 - y1) - (y1 - y0) * (x2 - x1))
                [0..<n]
        in list_all (\<lambda>c. c \<ge> 0) cross_products \<or> list_all (\<lambda>c. c \<le> 0) cross_products)"

text \<open>The accumulator \<^verbatim>\<open>area\<close> of \<^verbatim>\<open>polygon_area\<close> when its loop ends.\<close>

definition shoelace_sum :: "polygon \<Rightarrow> real" where
  "shoelace_sum poly =
     (let n = length poly in
      fold (\<lambda>i area.
              let (x1, y1) = poly ! i;
                  (x2, y2) = poly ! ((i + 1) mod n)
              in area + ((x1 * y2) - (x2 * y1)))
        [0..<n] 0)"

definition polygon_area :: "polygon \<Rightarrow> real" where
  "polygon_area poly = \<bar>shoelace_sum poly\<bar> / 2"

text \<open>\<^verbatim>\<open>zip(p, p[1:] + p[:1])\<close>: every vertex with its successor, the last with the first.\<close>

definition sides :: "polygon \<Rightarrow> (point \<times> point) list" where
  "sides p = zip p (drop 1 p @ take 1 p)"

definition polygon_perimeter :: "polygon \<Rightarrow> real" where
  "polygon_perimeter poly =
     sum_list (map (\<lambda>((x1, y1), (x2, y2)). hypot (x2 - x1) (y2 - y1)) (sides poly))"

text \<open>
  The loop of \<^verbatim>\<open>point_in_polygon\<close>, over the indices still to visit, with the flag
  \<^verbatim>\<open>inside\<close>.  The \<^verbatim>\<open>return True\<close> inside the loop ends it.  Python's \<^verbatim>\<open>and\<close> evaluates
  the division only when the first conjunct holds; a zero divisor there raises.
\<close>

fun pip_loop :: "polygon \<Rightarrow> real \<Rightarrow> real \<Rightarrow> nat list \<Rightarrow> bool \<Rightarrow> error + bool" where
  "pip_loop poly x y [] inside = Inr inside"
| "pip_loop poly x y (i # rest) inside =
     (let (x1, y1) = poly ! i;
          (x2, y2) = poly ! ((i + 1) mod length poly)
      in if (min x1 x2 \<le> x \<and> x \<le> max x1 x2) \<and> (min y1 y2 \<le> y \<and> y \<le> max y1 y2)
            \<and> \<bar>(x2 - x1) * (y - y1) - (y2 - y1) * (x - x1)\<bar> < 1 / 10 ^ 12
         then Inr True
         else if (y1 > y) \<noteq> (y2 > y)
         then (if y2 - y1 = 0 then Inl ZeroDivisionError
               else if x < (x2 - x1) * (y - y1) / (y2 - y1) + x1
               then pip_loop poly x y rest (\<not> inside)
               else pip_loop poly x y rest inside)
         else pip_loop poly x y rest inside)"

definition point_in_polygon :: "polygon \<Rightarrow> point \<Rightarrow> error + bool" where
  "point_in_polygon poly point =
     (let (x, y) = point in pip_loop poly x y [0..<length poly] False)"

section \<open>Filters\<close>

text \<open>
  An iterator of polygons is the list of what it yields.  \<^verbatim>\<open>filter\<close> with a predicate
  that may raise: the first exception ends the iteration.
\<close>

fun filter_err :: "('a \<Rightarrow> error + bool) \<Rightarrow> 'a list \<Rightarrow> error + 'a list" where
  "filter_err pr [] = Inr []"
| "filter_err pr (p # ps) =
     (case pr p of
        Inl e \<Rightarrow> Inl e
      | Inr b \<Rightarrow> (case filter_err pr ps of
                    Inl e \<Rightarrow> Inl e
                  | Inr qs \<Rightarrow> Inr (if b then p # qs else qs)))"

definition flt_point_inside :: "polygon list \<Rightarrow> point \<Rightarrow> error + polygon list" where
  "flt_point_inside polygons point =
     filter_err (\<lambda>p. if is_convex p then point_in_polygon p point else Inr False) polygons"

section \<open>Aggregators\<close>

text \<open>\<^verbatim>\<open>functools.reduce\<close> with an initial value and a step that may raise.\<close>

fun reduce_err :: "('b \<Rightarrow> 'a \<Rightarrow> error + 'b) \<Rightarrow> 'a list \<Rightarrow> 'b \<Rightarrow> error + 'b" where
  "reduce_err f [] acc = Inr acc"
| "reduce_err f (x # xs) acc =
     (case f acc x of Inl e \<Rightarrow> Inl e | Inr acc' \<Rightarrow> reduce_err f xs acc')"

text \<open>Floats with infinity: comparison, \<^verbatim>\<open>min\<close> of two, \<^verbatim>\<open>math.hypot\<close>.\<close>

fun fl_less :: "pyfloat \<Rightarrow> pyfloat \<Rightarrow> bool" where
  "fl_less (Finite a) (Finite b) = (a < b)"
| "fl_less (Finite a) PosInf = True"
| "fl_less PosInf b = False"

definition fl_min :: "pyfloat \<Rightarrow> pyfloat \<Rightarrow> pyfloat" where
  "fl_min a b = (if fl_less b a then b else a)"

fun fl_hypot :: "pyfloat \<Rightarrow> pyfloat \<Rightarrow> pyfloat" where
  "fl_hypot (Finite a) (Finite b) = Finite (hypot a b)"
| "fl_hypot a b = PosInf"

text \<open>
  \<^verbatim>\<open>min(seq, key=...)\<close> returns the first element with the least key and raises
  ValueError on an empty sequence; \<^verbatim>\<open>max(seq)\<close> likewise.
\<close>

fun min_key_from :: "('a \<Rightarrow> pyfloat) \<Rightarrow> 'a \<Rightarrow> 'a list \<Rightarrow> 'a" where
  "min_key_from key best [] = best"
| "min_key_from key best (x # xs) =
     min_key_from key (if fl_less (key x) (key best) then x else best) xs"

definition py_min_key :: "('a \<Rightarrow> pyfloat) \<Rightarrow> 'a list \<Rightarrow> error + 'a" where
  "py_min_key key xs =
     (case xs of [] \<Rightarrow> Inl ValueError | x # rest \<Rightarrow> Inr (min_key_from key x rest))"

definition py_max :: "real list \<Rightarrow> error + real" where
  "py_max xs = (case xs of [] \<Rightarrow> Inl ValueError | x # rest \<Rightarrow> Inr (fold (\<lambda>v m. if v > m then v else m) rest x))"

definition agr_origin_nearest :: "polygon list \<Rightarrow> error + fpoint" where
  "agr_origin_nearest polygons =
     reduce_err
       (\<lambda>closest poly.
          py_min_key (\<lambda>p. fl_hypot (fst p) (snd p))
            (map (\<lambda>(x, y). (Finite x, Finite y)) poly @ [closest]))
       polygons (PosInf, PosInf)"

definition agr_max_side :: "polygon list \<Rightarrow> error + real" where
  "agr_max_side polygons =
     reduce_err
       (\<lambda>max_len poly.
          case py_max (map (\<lambda>((x1, y1), (x2, y2)). hypot (x2 - x1) (y2 - y1)) (sides poly)) of
            Inl e \<Rightarrow> Inl e
          | Inr m \<Rightarrow> Inr (max max_len m))
       polygons 0"

definition agr_min_area :: "polygon list \<Rightarrow> pyfloat" where
  "agr_min_area polygons =
     fold (\<lambda>poly min_a. fl_min min_a (Finite (polygon_area poly))) polygons PosInf"

definition agr_perimeter :: "polygon list \<Rightarrow> real" where
  "agr_perimeter polygons =
     fold (\<lambda>poly total. total + polygon_perimeter poly) polygons 0"

definition agr_area :: "polygon list \<Rightarrow> real" where
  "agr_area polygons =
     fold (\<lambda>poly total. total + polygon_area poly) polygons 0"

section \<open>Notions of the specification\<close>

text \<open>
  The signed shoelace area: half the signed sum, before the absolute value is taken.
  Positive for a counter-clockwise vertex order, negative for a clockwise one.
\<close>

definition signed_area :: "polygon \<Rightarrow> real" where
  "signed_area poly = shoelace_sum poly / 2"


text \<open>
  Ray casting, in the words of the specification.  The edges of a polygon are the pairs
  of a vertex and its successor, the last vertex paired with the first.  A point is on an
  edge within tolerance when it lies in the edge's bounding box and the cross term is below
  \<^verbatim>\<open>1e-12\<close> in absolute value.  The ray from the point crosses an edge when the
  endpoints straddle the point's \<open>y\<close> (one strictly above, one not) and the point is left
  of the edge's x-intercept at that \<open>y\<close>.  The parity is that of the number of edges crossed.
\<close>

definition edge_at :: "polygon \<Rightarrow> nat \<Rightarrow> point \<times> point" where
  "edge_at poly i = (poly ! i, poly ! ((i + 1) mod length poly))"

definition polygon_edges :: "polygon \<Rightarrow> (point \<times> point) list" where
  "polygon_edges poly = map (edge_at poly) [0..<length poly]"

definition on_edge_within_tolerance :: "point \<Rightarrow> point \<times> point \<Rightarrow> bool" where
  "on_edge_within_tolerance pt e =
     (case (pt, e) of ((x, y), ((x1, y1), (x2, y2))) \<Rightarrow>
        (min x1 x2 \<le> x \<and> x \<le> max x1 x2) \<and> (min y1 y2 \<le> y \<and> y \<le> max y1 y2)
        \<and> \<bar>(x2 - x1) * (y - y1) - (y2 - y1) * (x - x1)\<bar> < 1 / 10 ^ 12)"

definition ray_crosses :: "point \<Rightarrow> point \<times> point \<Rightarrow> bool" where
  "ray_crosses pt e =
     (case (pt, e) of ((x, y), ((x1, y1), (x2, y2))) \<Rightarrow>
        ((y1 > y) \<noteq> (y2 > y)) \<and> x < (x2 - x1) * (y - y1) / (y2 - y1) + x1)"

definition crossing_parity :: "polygon \<Rightarrow> point \<Rightarrow> bool" where
  "crossing_parity poly pt = odd (length (filter (ray_crosses pt) (polygon_edges poly)))"

section \<open>Double precision arithmetic\<close>

text \<open>
  A Python float is an IEEE 754 binary64 value: a finite number, an infinity or nan.
  The finite ones are reals of the form \<open>k * 2\<^sup>j\<close> with \<open>\<bar>k\<bar> \<le> 2\<^sup>5\<^sup>3\<close> and \<open>j \<ge> -1074\<close>.
  The two zeros are one value here: no operation of the toolkit tells them apart
  (comparisons do not, and a division by either raises).
\<close>

datatype double = Fin real | PInf | NInf | NaN

text \<open>
  Rounding to nearest, ties to even.  \<open>expo x\<close> is the binary exponent of \<open>x\<close>, held at
  \<open>-1022\<close> in the subnormal range; \<open>ulp x\<close> is the spacing of the doubles around \<open>x\<close>;
  \<open>rne\<close> rounds a real to the nearest integer, a tie to the even one; \<open>rnd_fin x\<close> is the
  nearest multiple of \<open>ulp x\<close>.  \<open>rnd\<close> is the result of an operation whose exact value
  is \<open>x\<close>: an infinity once the rounded value reaches \<open>2\<^sup>1\<^sup>0\<^sup>2\<^sup>4\<close>.
\<close>

definition expo :: "real \<Rightarrow> int" where
  "expo x = max \<lfloor>log 2 \<bar>x\<bar>\<rfloor> (- 1022)"

definition ulp :: "real \<Rightarrow> real" where
  "ulp x = 2 powi (expo x - 52)"

definition rne :: "real \<Rightarrow> int" where
  "rne m =
     (let f = \<lfloor>m\<rfloor>; d = m - of_int f
      in if d < 1 / 2 then f
         else if d > 1 / 2 then f + 1
         else if even f then f else f + 1)"

definition rnd_fin :: "real \<Rightarrow> real" where
  "rnd_fin x = of_int (rne (x / ulp x)) * ulp x"

definition rnd :: "real \<Rightarrow> double" where
  "rnd x =
     (let r = rnd_fin x
      in if 2 ^ 1024 \<le> r then PInf
         else if r \<le> - (2 ^ 1024) then NInf
         else Fin r)"

text \<open>The finite doubles are the reals that rounding leaves alone.\<close>

definition is_double :: "real \<Rightarrow> bool" where
  "is_double r \<longleftrightarrow> rnd_fin r = r \<and> \<bar>r\<bar> < 2 ^ 1024"

text \<open>The largest finite double.\<close>

definition max_double :: real where
  "max_double = (2 ^ 53 - 1) * 2 ^ 971"

text \<open>
  The operations of Python on floats: negation, \<^verbatim>\<open>abs\<close>, \<^verbatim>\<open>+\<close>, \<^verbatim>\<open>-\<close>, \<^verbatim>\<open>*\<close>, \<^verbatim>\<open>/\<close>, the
  comparisons, and \<^verbatim>\<open>min\<close> and \<^verbatim>\<open>max\<close> of two arguments (which return the first argument
  unless the second is strictly smaller, respectively larger).  \<^verbatim>\<open>/\<close> raises
  ZeroDivisionError on a zero divisor.  A comparison with nan is false.
\<close>

fun fneg :: "double \<Rightarrow> double" where
  "fneg (Fin a) = Fin (- a)"
| "fneg PInf = NInf"
| "fneg NInf = PInf"
| "fneg NaN = NaN"

fun fabs :: "double \<Rightarrow> double" where
  "fabs (Fin a) = Fin \<bar>a\<bar>"
| "fabs PInf = PInf"
| "fabs NInf = PInf"
| "fabs NaN = NaN"

fun fadd :: "double \<Rightarrow> double \<Rightarrow> double" where
  "fadd (Fin a) (Fin b) = rnd (a + b)"
| "fadd NaN b = NaN"
| "fadd a NaN = NaN"
| "fadd PInf NInf = NaN"
| "fadd NInf PInf = NaN"
| "fadd PInf b = PInf"
| "fadd NInf b = NInf"
| "fadd a PInf = PInf"
| "fadd a NInf = NInf"

definition fsub :: "double \<Rightarrow> double \<Rightarrow> double" where
  "fsub a b = fadd a (fneg b)"

fun fmul :: "double \<Rightarrow> double \<Rightarrow> double" where
  "fmul (Fin a) (Fin b) = rnd (a * b)"
| "fmul NaN b = NaN"
| "fmul a NaN = NaN"
| "fmul PInf (Fin b) = (if b = 0 then NaN else if 0 < b then PInf else NInf)"
| "fmul NInf (Fin b) = (if b = 0 then NaN else if 0 < b then NInf else PInf)"
| "fmul (Fin a) PInf = (if a = 0 then NaN else if 0 < a then PInf else NInf)"
| "fmul (Fin a) NInf = (if a = 0 then NaN else if 0 < a then NInf else PInf)"
| "fmul PInf PInf = PInf"
| "fmul PInf NInf = NInf"
| "fmul NInf PInf = NInf"
| "fmul NInf NInf = PInf"

fun fdiv :: "double \<Rightarrow> double \<Rightarrow> double" where
  "fdiv (Fin a) (Fin b) = rnd (a / b)"
| "fdiv NaN b = NaN"
| "fdiv a NaN = NaN"
| "fdiv (Fin a) PInf = Fin 0"
| "fdiv (Fin a) NInf = Fin 0"
| "fdiv PInf (Fin b) = (if 0 \<le> b then PInf else NInf)"
| "fdiv NInf (Fin b) = (if 0 \<le> b then NInf else PInf)"
| "fdiv a b = NaN"

definition py_truediv :: "double \<Rightarrow> double \<Rightarrow> error + double" where
  "py_truediv a b = (if b = Fin 0 then Inl ZeroDivisionError else Inr (fdiv a b))"

fun flt :: "double \<Rightarrow> double \<Rightarrow> bool" where
  "flt (Fin a) (Fin b) = (a < b)"
| "flt NaN b = False"
| "flt a NaN = False"
| "flt a NInf = False"
| "flt PInf b = False"
| "flt a b = True"

fun fle :: "double \<Rightarrow> double \<Rightarrow> bool" where
  "fle (Fin a) (Fin b) = (a \<le> b)"
| "fle NaN b = False"
| "fle a NaN = False"
| "fle NInf b = True"
| "fle a PInf = True"
| "fle a b = False"

definition fgt :: "double \<Rightarrow> double \<Rightarrow> bool" where
  "fgt a b = flt b a"

definition fge :: "double \<Rightarrow> double \<Rightarrow> bool" where
  "fge a b = fle b a"

definition fmin :: "double \<Rightarrow> double \<Rightarrow> double" where
  "fmin a b = (if flt b a then b else a)"

definition fmax :: "double \<Rightarrow> double \<Rightarrow> double" where
  "fmax a b = (if fgt b a then b else a)"

section \<open>The toolkit in double precision\<close>

type_synonym dpoint = "double \<times> double"

type_synonym dpolygon = "dpoint list"

definition gen_rectangle_f64 :: "double \<Rightarrow> double \<Rightarrow> dpolygon" where
  "gen_rectangle_f64 width height =
     [(Fin 0, Fin 0), (Fin 0, height), (width, height), (width, Fin 0)]"

text \<open>\<^verbatim>\<open>math.sqrt(3)\<close>: the square root is correctly rounded.\<close>

definition sqrt3_f64 :: double where
  "sqrt3_f64 = rnd (sqrt 3)"

definition gen_triangle_f64 :: "double \<Rightarrow> dpolygon" where
  "gen_triangle_f64 side =
     (let height = fdiv (fmul side sqrt3_f64) (Fin 2)
      in [(Fin 0, Fin 0), (side, Fin 0), (fdiv side (Fin 2), height)])"

text \<open>
  \<^verbatim>\<open>math.cos\<close> and \<^verbatim>\<open>math.sin\<close> are the platform's library functions.  The hexagon takes
  them as parameters \<open>cosd\<close> and \<open>sind\<close>, giving \<^verbatim>\<open>math.cos(math.radians(angle))\<close> and
  \<^verbatim>\<open>math.sin(math.radians(angle))\<close> for the integer \<open>angle\<close> of \<^verbatim>\<open>range(0, 360, 60)\<close>.
\<close>

definition gen_hexagon_f64 :: "(int \<Rightarrow> double) \<Rightarrow> (int \<Rightarrow> double) \<Rightarrow> double \<Rightarrow> dpolygon" where
  "gen_hexagon_f64 cosd sind side =
     map (\<lambda>angle. (fmul side (cosd angle), fmul side (sind angle)))
       [0, 60, 120, 180, 240, 300]"



definition is_convex_f64 :: "dpolygon \<Rightarrow> bool" where
  "is_convex_f64 poly =
     (let n = length poly in
      if n < 3 then False
      else
        let cross_products =
              map (\<lambda>i.
                    let (x0, y0) = poly ! i;
                        (x1, y1) = poly ! ((i + 1) mod n);
                        (x2, y2) = poly ! ((i + 2) mod n)
                    in fsub (fmul (fsub x1 x0) (fsub y2 y1)) (fmul (fsub y1 y0) (fsub x2 x1)))
                [0..<n]
        in list_all (\<lambda>c. fge c (Fin 0)) cross_products
           \<or> list_all (\<lambda>c. fle c (Fin 0)) cross_products)"

definition shoelace_sum_f64 :: "dpolygon \<Rightarrow> double" where
  "shoelace_sum_f64 poly =
     (let n = length poly in
      fold (\<lambda>i area.
              let (x1, y1) = poly ! i;
                  (x2, y2) = poly ! ((i + 1) mod n)
              in fadd area (fsub (fmul x1 y2) (fmul x2 y1)))
        [0..<n] (Fin 0))"

definition polygon_area_f64 :: "dpolygon \<Rightarrow> double" where
  "polygon_area_f64 poly = fdiv (fabs (shoelace_sum_f64 poly)) (Fin 2)"

text \<open>The literal \<^verbatim>\<open>1e-12\<close> is the double nearest to \<open>10\<^sup>-\<^sup>1\<^sup>2\<close>.\<close>

definition tolerance_f64 :: double where
  "tolerance_f64 = rnd (1 / 10 ^ 12)"

fun pip_loop_f64 :: "dpolygon \<Rightarrow> double \<Rightarrow> double \<Rightarrow> nat list \<Rightarrow> bool \<Rightarrow> error + bool" where
  "pip_loop_f64 poly x y [] inside = Inr inside"
| "pip_loop_f64 poly x y (i # rest) inside =
     (let (x1, y1) = poly ! i;
          (x2, y2) = poly ! ((i + 1) mod length poly)
      in if (fle (fmin x1 x2) x \<and> fle x (fmax x1 x2)) \<and> (fle (fmin y1 y2) y \<and> fle y (fmax y1 y2))
            \<and> flt (fabs (fsub (fmul (fsub x2 x1) (fsub y y1)) (fmul (fsub y2 y1) (fsub x x1))))
                 tolerance_f64
         then Inr True
         else if fgt y1 y \<noteq> fgt y2 y
         then (case py_truediv (fmul (fsub x2 x1) (fsub y y1)) (fsub y2 y1) of
                 Inl e \<Rightarrow> Inl e
               | Inr q \<Rightarrow>
                   if flt x (fadd q x1)
                   then pip_loop_f64 poly x y rest (\<not> inside)
                   else pip_loop_f64 poly x y rest inside)
         else pip_loop_f64 poly x y rest inside)"

definition point_in_polygon_f64 :: "dpolygon \<Rightarrow> dpoint \<Rightarrow> error + bool" where
  "point_in_polygon_f64 poly point =
     (let (x, y) = point in pip_loop_f64 poly x y [0..<length poly] False)"

text \<open>A value that a Python float can hold: a finite double, an infinity or nan.\<close>

definition canonical :: "double \<Rightarrow> bool" where
  "canonical d = (case d of Fin r \<Rightarrow> is_double r | _ \<Rightarrow> True)"

text \<open>Finite coordinates of magnitude at most \<open>B\<close>.\<close>

fun bounded_by :: "real \<Rightarrow> double \<Rightarrow> bool" where
  "bounded_by B (Fin r) = (\<bar>r\<bar> \<le> B)"
| "bounded_by B d = False"

definition coords_bounded :: "real \<Rightarrow> dpolygon \<Rightarrow> bool" where
  "coords_bounded B poly = list_all (\<lambda>(x, y). bounded_by B x \<and> bounded_by B y) poly"


text \<open>
  Ray casting in double precision, in the words of the specification: the edges, the test
  that a point is on an edge within tolerance (inside the bounding box, cross term below
  \<^verbatim>\<open>1e-12\<close>), the test that the ray crosses an edge, and the parity of the crossings.  The
  cross term, the x-intercept and the tolerance are the program's own float values.
\<close>

definition edge_at_f64 :: "dpolygon \<Rightarrow> nat \<Rightarrow> dpoint \<times> dpoint" where
  "edge_at_f64 poly i = (poly ! i, poly ! ((i + 1) mod length poly))"

definition polygon_edges_f64 :: "dpolygon \<Rightarrow> (dpoint \<times> dpoint) list" where
  "polygon_edges_f64 poly = map (edge_at_f64 poly) [0..<length poly]"

definition on_edge_within_tolerance_f64 :: "dpoint \<Rightarrow> dpoint \<times> dpoint \<Rightarrow> bool" where
  "on_edge_within_tolerance_f64 pt e =
     (case (pt, e) of ((x, y), ((x1, y1), (x2, y2))) \<Rightarrow>
        (fle (fmin x1 x2) x \<and> fle x (fmax x1 x2)) \<and> (fle (fmin y1 y2) y \<and> fle y (fmax y1 y2))
        \<and> flt (fabs (fsub (fmul (fsub x2 x1) (fsub y y1)) (fmul (fsub y2 y1) (fsub x x1))))
             tolerance_f64)"

definition ray_crosses_f64 :: "dpoint \<Rightarrow> dpoint \<times> dpoint \<Rightarrow> bool" where
  "ray_crosses_f64 pt e =
     (case (pt, e) of ((x, y), ((x1, y1), (x2, y2))) \<Rightarrow>
        (fgt y1 y \<noteq> fgt y2 y)
        \<and> flt x (fadd (fdiv (fmul (fsub x2 x1) (fsub y y1)) (fsub y2 y1)) x1))"

definition crossing_parity_f64 :: "dpolygon \<Rightarrow> dpoint \<Rightarrow> bool" where
  "crossing_parity_f64 poly pt =
     odd (length (filter (ray_crosses_f64 pt) (polygon_edges_f64 poly)))"

text \<open>A polygon whose coordinates are all values of the float type.\<close>

definition valid_polygon :: "dpolygon \<Rightarrow> bool" where
  "valid_polygon poly = list_all (\<lambda>(x, y). canonical x \<and> canonical y) poly"

section \<open>Aggregators on the empty sequence\<close>

text \<open>
  Claim C5.  On an empty polygon sequence every aggregator returns its seed:
  \<^verbatim>\<open>agr_origin_nearest\<close> the point (+infinity, +infinity), \<^verbatim>\<open>agr_max_side\<close> 0.0,
  \<^verbatim>\<open>agr_min_area\<close> +infinity, \<^verbatim>\<open>agr_perimeter\<close> 0.0 and \<^verbatim>\<open>agr_area\<close> 0.0; none raises.
\<close>

theorem aggregators_empty:
  "agr_origin_nearest [] = Inr (PosInf, PosInf)
   \<and> agr_max_side [] = Inr 0
   \<and> agr_min_area [] = PosInf
   \<and> agr_perimeter [] = 0
   \<and> agr_area [] = 0"
  by (simp add: agr_origin_nearest_def agr_max_side_def agr_min_area_def
        agr_perimeter_def agr_area_def)

section \<open>The shoelace sum as a cyclic sum\<close>















section \<open>The rectangle generator\<close>

lemma upt_4: "[0..<4] = [0, 1, 2, 3]"
  by (simp add: upt_rec)

lemma shoelace_sum_rectangle: "shoelace_sum (gen_rectangle w h) = - 2 * (w * h)"
  by (simp add: shoelace_sum_def gen_rectangle_def upt_4)

text \<open>
  Claim C2, as stated: for positive \<open>w\<close> and \<open>h\<close>, \<^verbatim>\<open>gen_rectangle(w, h)\<close> is the four
  vertices (0,0), (0,h), (w,h), (w,0) in that order, and this order has positive signed
  shoelace area.  The second half fails for the unit square: its signed area is \<open>-1\<close>.
\<close>

theorem gen_rectangle_ccw_counterexample:
  "\<not> ((0::real) < 1 \<and> (0::real) < 1 \<longrightarrow>
        gen_rectangle 1 1 = [(0, 0), (0, 1), (1, 1), (1, 0)] \<and> 0 < signed_area (gen_rectangle 1 1))"
  by (simp add: signed_area_def shoelace_sum_rectangle)

text \<open>
  Claim C2, amended.  For positive \<open>w\<close> and \<open>h\<close>, \<^verbatim>\<open>gen_rectangle(w, h)\<close> is the four
  vertices (0,0), (0,h), (w,h), (w,0) in that order, and this order is clockwise:
  its signed shoelace area is \<open>- (w * h)\<close>, which is negative.
\<close>

theorem gen_rectangle_clockwise:
  "0 < w \<Longrightarrow> 0 < h \<Longrightarrow>
     gen_rectangle w h = [(0, 0), (0, h), (w, h), (w, 0)]
     \<and> signed_area (gen_rectangle w h) = - (w * h)
     \<and> signed_area (gen_rectangle w h) < 0"
  by (simp add: signed_area_def shoelace_sum_rectangle) (simp add: gen_rectangle_def)

theorem gen_rectangle_clockwise_witness:
  "(0::real) < 2 \<and> (0::real) < 3
   \<and> gen_rectangle 2 3 = [(0, 0), (0, 3), (2, 3), (2, 0)]
   \<and> signed_area (gen_rectangle 2 3) = - 6
   \<and> signed_area (gen_rectangle 2 3) < 0"
proof -
  have "gen_rectangle 2 3 = [(0, 0), (0, 3), (2, 3), (2, 0)]
     \<and> signed_area (gen_rectangle 2 3) = - (2 * 3)
     \<and> signed_area (gen_rectangle 2 3) < 0"
    by (rule gen_rectangle_clockwise) simp_all
  then show ?thesis by (simp add: gen_rectangle_def)
qed

section \<open>Degenerate polygons\<close>

lemma short_polygon_cases:
  assumes "length (poly :: polygon) < 3"
  obtains "poly = []" | a where "poly = [a]" | a b where "poly = [a, b]"
proof (cases poly)
  case Nil
  then show ?thesis using that by simp
next
  case (Cons a rest)
  show ?thesis
  proof (cases rest)
    case Nil
    then show ?thesis using that Cons by simp
  next
    case (Cons b rest')
    with assms \<open>poly = a # rest\<close> have "rest' = []" by simp
    then show ?thesis using that Cons \<open>poly = a # rest\<close> by simp
  qed
qed

lemma upt_2: "[0..<2] = [0, 1]"
  by (simp add: upt_rec)

lemma shoelace_sum_short: "length poly < 3 \<Longrightarrow> shoelace_sum poly = 0"
  by (erule short_polygon_cases) (simp_all add: shoelace_sum_def upt_2 case_prod_beta)

text \<open>
  In exact real arithmetic a polygon of fewer than three vertices has area 0 and is not
  convex.
\<close>

lemma degenerate_results_exact:
  "length poly < 3 \<Longrightarrow> polygon_area poly = 0 \<and> is_convex poly = False"
  by (simp add: polygon_area_def shoelace_sum_short is_convex_def)

section \<open>Round trips of the transforms\<close>






section \<open>Reflection\<close>

text \<open>
  Claim C10.  \<^verbatim>\<open>tr_symmetry\<close> is total in its axis argument: every axis string other
  than \<^verbatim>\<open>'x'\<close> reflects across the y-axis, sending \<open>(x, y)\<close> to \<open>(-x, y)\<close>, and the axis
  \<^verbatim>\<open>'x'\<close> sends \<open>(x, y)\<close> to \<open>(x, -y)\<close>; no axis string raises.
\<close>

theorem tr_symmetry_total:
  "(axis \<noteq> ''x'' \<longrightarrow> tr_symmetry poly axis = map (\<lambda>(x, y). (- x, y)) poly)
   \<and> tr_symmetry poly ''x'' = map (\<lambda>(x, y). (x, - y)) poly"
  by (simp add: tr_symmetry_def)

theorem tr_symmetry_total_witness:
  "''diagonal'' \<noteq> ''x''
   \<and> tr_symmetry [(1, 2), (3, 4)] ''diagonal'' = [(- 1, 2), (- 3, 4)]
   \<and> tr_symmetry [(1, 2), (3, 4)] ''x'' = [(1, - 2), (3, - 4)]"
  using tr_symmetry_total [of "''diagonal''" "[(1, 2), (3, 4)]"] by simp

section \<open>Point in polygon\<close>

lemma straddle_divisor: "((y1::real) > y) \<noteq> (y2 > y) \<Longrightarrow> y2 - y1 \<noteq> 0"
  by auto

lemma pip_loop_step:
  "pip_loop poly x y (i # rest) inside =
     (if on_edge_within_tolerance (x, y) (edge_at poly i) then Inr True
      else pip_loop poly x y rest (inside \<noteq> ray_crosses (x, y) (edge_at poly i)))"
  by (cases "poly ! i"; cases "poly ! ((i + 1) mod length poly)")
     (auto simp: edge_at_def on_edge_within_tolerance_def ray_crosses_def)

lemma pip_loop_spec:
  "pip_loop poly x y idxs inside =
     Inr (list_ex (on_edge_within_tolerance (x, y)) (map (edge_at poly) idxs)
          \<or> (inside \<noteq> odd (length (filter (ray_crosses (x, y)) (map (edge_at poly) idxs)))))"
proof (induction idxs arbitrary: inside)
  case Nil
  show ?case by simp
next
  case (Cons i rest)
  show ?case
    unfolding pip_loop_step Cons.IH by auto
qed

lemma point_in_polygon_spec:
  "point_in_polygon poly pt =
     Inr (list_ex (on_edge_within_tolerance pt) (polygon_edges poly) \<or> crossing_parity poly pt)"
  by (cases pt) (simp add: point_in_polygon_def pip_loop_spec polygon_edges_def crossing_parity_def)

section \<open>No division by zero\<close>

lemma pip_loop_no_error: "pip_loop poly x y idxs inside \<noteq> Inl e"
proof (induction idxs arbitrary: inside)
  case Nil
  show ?case by simp
next
  case (Cons i rest)
  obtain x1 y1 where p1: "poly ! i = (x1, y1)" by (cases "poly ! i")
  obtain x2 y2 where p2: "poly ! ((i + 1) mod length poly) = (x2, y2)"
    by (cases "poly ! ((i + 1) mod length poly)")
  show ?case
  proof (cases "(y1 > y) \<noteq> (y2 > y)")
    case True
    then have "y2 - y1 \<noteq> 0" by (rule straddle_divisor)
    with True show ?thesis using p1 p2 Cons.IH by simp
  next
    case False
    then show ?thesis using p1 p2 Cons.IH by simp
  qed
qed

text \<open>
  Claim C9.  \<^verbatim>\<open>point_in_polygon\<close> never divides by zero: the division by \<open>y2 - y1\<close> is
  evaluated only when exactly one of \<open>y1 > y\<close> and \<open>y2 > y\<close> holds, and then \<open>y1\<close> and \<open>y2\<close>
  differ.  The raising branch of the loop is unreachable, and the function always returns
  a truth value.
\<close>

theorem point_in_polygon_never_divides_by_zero:
  "point_in_polygon poly pt \<noteq> Inl ZeroDivisionError
   \<and> (\<exists>b. point_in_polygon poly pt = Inr b)"
proof -
  obtain x y where pt: "pt = (x, y)" by (cases pt)
  have ne: "point_in_polygon poly pt \<noteq> Inl e" for e
    by (simp add: point_in_polygon_def pt pip_loop_no_error)
  then show ?thesis by (cases "point_in_polygon poly pt") auto
qed

section \<open>The containment filter\<close>

lemma filter_err_total:
  assumes "\<And>p. pr p = Inr (q p)"
  shows "filter_err pr ps = Inr (filter q ps)"
  by (induction ps) (simp_all add: assms)

lemma flt_point_inside_filter:
  "flt_point_inside polygons pt =
     Inr (filter (\<lambda>p. is_convex p \<and> point_in_polygon p pt = Inr True) polygons)"
  unfolding flt_point_inside_def
proof (rule filter_err_total)
  fix p
  show "(if is_convex p then point_in_polygon p pt else Inr False) =
          Inr (is_convex p \<and> point_in_polygon p pt = Inr True)"
    by (simp add: point_in_polygon_spec)
qed

text \<open>
  Claim C4.  \<^verbatim>\<open>flt_point_inside\<close> passes, in order, exactly the polygons that are convex
  (by \<^verbatim>\<open>is_convex\<close>) and contain the point (by \<^verbatim>\<open>point_in_polygon\<close>); a polygon that is
  not convex is never passed.  The second theorem below runs the filter on an arrow-shaped
  polygon with a point that \<^verbatim>\<open>point_in_polygon\<close> finds inside it: the arrow is dropped.
\<close>

theorem flt_point_inside_exact:
  "\<exists>passed. flt_point_inside polygons pt = Inr passed
      \<and> passed = filter (\<lambda>p. is_convex p \<and> point_in_polygon p pt = Inr True) polygons
      \<and> (\<forall>p. \<not> is_convex p \<longrightarrow> p \<notin> set passed)"
  by (simp add: flt_point_inside_filter)

lemma arrow_not_convex: "\<not> is_convex [(0, 0), (2, 1), (4, 0), (2, 4)]"
  by (simp add: is_convex_def upt_4)

lemma arrow_contains: "point_in_polygon [(0, 0), (2, 1), (4, 0), (2, 4)] (2, 2) = Inr True"
  by (simp add: point_in_polygon_def upt_4)

lemma square_convex: "is_convex (gen_rectangle 4 4)"
  by (simp add: is_convex_def gen_rectangle_def upt_4)

lemma square_contains: "point_in_polygon (gen_rectangle 4 4) (2, 2) = Inr True"
  by (simp add: point_in_polygon_def gen_rectangle_def upt_4)

theorem flt_point_inside_exact_witness:
  "\<not> is_convex [(0, 0), (2, 1), (4, 0), (2, 4)]
   \<and> point_in_polygon [(0, 0), (2, 1), (4, 0), (2, 4)] (2, 2) = Inr True
   \<and> flt_point_inside [[(0, 0), (2, 1), (4, 0), (2, 4)], gen_rectangle 4 4] (2, 2)
       = Inr [gen_rectangle 4 4]"
  using flt_point_inside_exact [of "[[(0, 0), (2, 1), (4, 0), (2, 4)], gen_rectangle 4 4]" "(2, 2)"]
  by (simp add: arrow_not_convex arrow_contains square_convex square_contains)

section \<open>Convexity of the generated shapes\<close>















section \<open>The aggregators on sample input\<close>

text \<open>
  The reductions on non-empty input: the nearest vertex of the 2 by 2 rectangle moved by
  (5, 5) is (5, 5); areas add up and the least one is kept; the longest side of the 3 by 4
  rectangle is 4 and its perimeter 14.  A polygon with no vertex makes \<^verbatim>\<open>agr_max_side\<close>
  raise, since \<^verbatim>\<open>max\<close> of an empty sequence does.
\<close>

lemma agr_origin_nearest_example:
  "agr_origin_nearest [tr_translate (gen_rectangle 2 2) 5 5] = Inr (Finite 5, Finite 5)"
  by (simp add: agr_origin_nearest_def tr_translate_def gen_rectangle_def py_min_key_def
        hypot_def)

lemma agr_area_example:
  "agr_area [gen_rectangle 1 (3 / 2), gen_rectangle 10 10] = 203 / 2"
  by (simp add: agr_area_def polygon_area_def shoelace_sum_rectangle)

lemma agr_min_area_example:
  "agr_min_area [gen_rectangle 1 (3 / 2), gen_rectangle 10 10] = Finite (3 / 2)"
  by (simp add: agr_min_area_def fl_min_def polygon_area_def shoelace_sum_rectangle)

lemma agr_max_side_example:
  "agr_max_side [gen_rectangle 3 4] = Inr 4 \<and> agr_max_side [[]] = Inl ValueError"
  by (simp add: agr_max_side_def gen_rectangle_def sides_def py_max_def hypot_def
        real_sqrt_mult_self)

lemma agr_perimeter_example: "agr_perimeter [gen_rectangle 3 4] = 14"
  by (simp add: agr_perimeter_def polygon_perimeter_def gen_rectangle_def sides_def hypot_def)

section \<open>Properties of rounding\<close>

lemma rne_of_int: "rne (of_int k) = k"
  by (simp add: rne_def)

lemma rne_lower: "of_int n \<le> m \<Longrightarrow> n \<le> rne m"
proof -
  assume "of_int n \<le> m"
  then have "n \<le> \<lfloor>m\<rfloor>" by (simp add: le_floor_iff)
  then show ?thesis by (auto simp: rne_def Let_def)
qed

lemma rne_upper: "m \<le> of_int n \<Longrightarrow> rne m \<le> n"
proof -
  assume a: "m \<le> of_int n"
  have f: "\<lfloor>m\<rfloor> \<le> n" using a by (simp add: floor_le_iff)
  show ?thesis
  proof (cases "m = of_int \<lfloor>m\<rfloor>")
    case True
    then show ?thesis using f by (simp add: rne_def)
  next
    case False
    then have "of_int \<lfloor>m\<rfloor> < m" by (metis of_int_floor_le order_less_le)
    with a have "\<lfloor>m\<rfloor> < n" by linarith
    then show ?thesis by (auto simp: rne_def Let_def)
  qed
qed

lemma rne_error: "\<bar>of_int (rne m) - m\<bar> \<le> 1 / 2"
  unfolding rne_def Let_def by (auto simp: abs_le_iff)

lemma rne_minus: "rne (- m) = - rne m"
proof (cases "m = of_int \<lfloor>m\<rfloor>")
  case True
  then obtain k where "m = of_int k" by metis
  then show ?thesis by (simp add: rne_of_int flip: of_int_minus)
next
  case False
  then have c: "\<lceil>m\<rceil> = \<lfloor>m\<rfloor> + 1" by (metis ceiling_altdef of_int_floor_cancel)
  have fl: "\<lfloor>- m\<rfloor> = - \<lfloor>m\<rfloor> - 1" using c by (simp add: floor_minus)
  let ?f = "\<lfloor>m\<rfloor>" and ?d = "m - of_int \<lfloor>m\<rfloor>"
  have d: "- m - of_int (\<lfloor>- m\<rfloor>) = 1 - ?d" by (simp add: fl)
  have ev: "even (- ?f - 1) \<longleftrightarrow> odd ?f" by simp
  show ?thesis
    unfolding rne_def Let_def d unfolding fl ev
    by (auto simp: field_simps)
qed

lemma powr_powi: "(2::real) powr (of_int k) = 2 powi k"
  by (rule powr_real_of_int') simp_all

lemma of_int_succ: "(of_int k + 1 :: real) = of_int (k + 1)"
  by simp

lemma floor_log2_bounds:
  assumes "x \<noteq> 0"
  shows "2 powi \<lfloor>log 2 \<bar>x\<bar>\<rfloor> \<le> \<bar>x\<bar>" and "\<bar>x\<bar> < 2 powi (\<lfloor>log 2 \<bar>x\<bar>\<rfloor> + 1)"
proof -
  have pos: "0 < \<bar>x\<bar>" using assms by simp
  have *: "2 powr (of_int \<lfloor>log 2 \<bar>x\<bar>\<rfloor>) \<le> \<bar>x\<bar> \<and> \<bar>x\<bar> < 2 powr (of_int \<lfloor>log 2 \<bar>x\<bar>\<rfloor> + 1)"
    using floor_log_eq_powr_iff [OF pos, of 2 "\<lfloor>log 2 \<bar>x\<bar>\<rfloor>"] by simp
  show "2 powi \<lfloor>log 2 \<bar>x\<bar>\<rfloor> \<le> \<bar>x\<bar>"
    using * unfolding of_int_succ powr_powi by (rule conjunct1)
  show "\<bar>x\<bar> < 2 powi (\<lfloor>log 2 \<bar>x\<bar>\<rfloor> + 1)"
    using * unfolding of_int_succ powr_powi by (rule conjunct2)
qed

lemma floor_log2_eq:
  assumes "2 powi e \<le> \<bar>x\<bar>" and "\<bar>x\<bar> < 2 powi (e + 1)"
  shows "\<lfloor>log 2 \<bar>x\<bar>\<rfloor> = e"
proof -
  have "(0::real) < 2 powi e" by simp
  then have pos: "0 < \<bar>x\<bar>" using assms(1) by linarith
  have "2 powr (of_int e) \<le> \<bar>x\<bar> \<and> \<bar>x\<bar> < 2 powr (of_int e + 1)"
    unfolding of_int_succ powr_powi using assms by (rule conjI)
  then show ?thesis using floor_log_eq_powr_iff [OF pos, of 2 e] by simp
qed

lemma expo_eq:
  "2 powi e \<le> \<bar>x\<bar> \<Longrightarrow> \<bar>x\<bar> < 2 powi (e + 1) \<Longrightarrow> - 1022 \<le> e \<Longrightarrow> expo x = e"
  by (simp add: expo_def floor_log2_eq)

lemma expo_ge: "- 1022 \<le> expo x"
  by (simp add: expo_def)

lemma expo_subnormal:
  assumes "x \<noteq> 0" and "\<bar>x\<bar> < 2 powi (- 1021)"
  shows "expo x = - 1022"
proof -
  have "2 powi \<lfloor>log 2 \<bar>x\<bar>\<rfloor> < (2::real) powi (- 1021)"
    using floor_log2_bounds(1) [OF assms(1)] assms(2) by linarith
  then have "\<lfloor>log 2 \<bar>x\<bar>\<rfloor> < - 1021"
    by (smt (verit) power_int_increasing)
  then show ?thesis by (simp add: expo_def)
qed

lemma abs_less_expo: "x \<noteq> 0 \<Longrightarrow> \<bar>x\<bar> < 2 powi (expo x + 1)"
proof -
  assume x: "x \<noteq> 0"
  have "\<bar>x\<bar> < 2 powi (\<lfloor>log 2 \<bar>x\<bar>\<rfloor> + 1)" by (rule floor_log2_bounds(2) [OF x])
  also have "\<dots> \<le> 2 powi (expo x + 1)"
    by (rule power_int_increasing) (simp_all add: expo_def)
  finally show ?thesis .
qed

lemma expo_le_abs: "2 powi (- 1022) \<le> \<bar>x\<bar> \<Longrightarrow> 2 powi (expo x) \<le> \<bar>x\<bar>"
proof -
  assume a: "2 powi (- 1022) \<le> \<bar>x\<bar>"
  then have x: "x \<noteq> 0" by (smt (verit) zero_less_power_int abs_zero)
  have "(2::real) powi (- 1022) < 2 powi (\<lfloor>log 2 \<bar>x\<bar>\<rfloor> + 1)"
    using a floor_log2_bounds(2) [OF x] by linarith
  then have "- 1022 < \<lfloor>log 2 \<bar>x\<bar>\<rfloor> + 1"
    by (smt (verit) power_int_increasing)
  then have "expo x = \<lfloor>log 2 \<bar>x\<bar>\<rfloor>" by (simp add: expo_def)
  then show ?thesis using floor_log2_bounds(1) [OF x] by simp
qed

lemma ulp_pos: "0 < ulp x"
  by (simp add: ulp_def)

lemma expo_minus: "expo (- x) = expo x"
  by (simp add: expo_def)

lemma ulp_minus: "ulp (- x) = ulp x"
  by (simp add: ulp_def expo_minus)

lemma rnd_fin_minus: "rnd_fin (- x) = - rnd_fin x"
  by (simp add: rnd_fin_def ulp_minus rne_minus)

lemma rnd_fin_0: "rnd_fin 0 = 0"
  by (simp add: rnd_fin_def rne_def)

lemma rnd_fin_nonneg: "0 \<le> x \<Longrightarrow> 0 \<le> rnd_fin x"
proof -
  assume "0 \<le> x"
  then have "of_int 0 \<le> x / ulp x" using ulp_pos [of x] by simp
  then have "0 \<le> rne (x / ulp x)" by (rule rne_lower)
  then show ?thesis using ulp_pos [of x] by (simp add: rnd_fin_def)
qed

lemma rnd_fin_nonpos: "x \<le> 0 \<Longrightarrow> rnd_fin x \<le> 0"
  using rnd_fin_nonneg [of "- x"] by (simp add: rnd_fin_minus)

lemma rnd_fin_error: "\<bar>rnd_fin x - x\<bar> \<le> ulp x / 2"
proof -
  have "\<bar>rnd_fin x - x\<bar> = \<bar>of_int (rne (x / ulp x)) - x / ulp x\<bar> * ulp x"
  proof -
    have "rnd_fin x - x = (of_int (rne (x / ulp x)) - x / ulp x) * ulp x"
      using ulp_pos [of x] by (simp add: rnd_fin_def left_diff_distrib)
    then show ?thesis using ulp_pos [of x] by (simp add: abs_mult)
  qed
  also have "\<dots> \<le> (1 / 2) * ulp x"
    by (rule mult_right_mono [OF rne_error]) (simp add: ulp_pos less_imp_le)
  finally show ?thesis by simp
qed

lemma rnd_fin_exact: "x / ulp x = of_int n \<Longrightarrow> rnd_fin x = x"
proof -
  assume a: "x / ulp x = of_int n"
  then have "x = of_int n * ulp x" using ulp_pos [of x] by (simp add: field_simps)
  then show ?thesis using a by (simp add: rnd_fin_def rne_of_int)
qed

lemma powi_quotient_int:
  assumes "i \<le> j"
  shows "(2::real) powi j / 2 powi i = of_int (2 ^ nat (j - i))"
proof -
  have "(2::real) powi j / 2 powi i = 2 powi (j - i)" by (simp add: power_int_diff)
  also have "\<dots> = 2 ^ nat (j - i)" using assms by (simp add: power_int_nonneg_exp)
  finally show ?thesis by simp
qed

lemma rnd_fin_representable:
  assumes k: "\<bar>k\<bar> \<le> 2 ^ 53" and j: "- 1074 \<le> j"
  shows "rnd_fin (of_int k * 2 powi j) = of_int k * 2 powi j"
proof (cases "\<bar>k\<bar> = 2 ^ 53")
  case True
  let ?v = "of_int k * (2::real) powi j"
  have av: "\<bar>?v\<bar> = 2 powi (j + 53)"
  proof -
    have "\<bar>?v\<bar> = of_int \<bar>k\<bar> * 2 powi j" by (simp add: abs_mult)
    also have "\<dots> = 2 powi 53 * 2 powi j" using True by simp
    also have "\<dots> = 2 powi (j + 53)" by (simp add: power_int_add)
    finally show ?thesis .
  qed
  have e: "expo ?v = j + 53"
  proof (rule expo_eq)
    show "2 powi (j + 53) \<le> \<bar>?v\<bar>" using av by simp
    show "\<bar>?v\<bar> < 2 powi (j + 53 + 1)" unfolding av by (rule power_int_strict_increasing) simp_all
    show "- 1022 \<le> j + 53" using j by simp
  qed
  have "?v / ulp ?v = of_int k * (2 powi j / 2 powi (j + 1))"
    by (simp add: ulp_def e add.commute)
  also have "(2::real) powi j / 2 powi (j + 1) = 1 / 2" by (simp add: power_int_add)
  also have "of_int k * (1 / 2 :: real) = of_int (k div 2)"
  proof -
    have "even k" using True by (metis abs_numeral dvd_abs_iff even_numeral even_power zero_less_numeral)
    then show ?thesis by (simp add: real_of_int_div)
  qed
  finally show ?thesis by (rule rnd_fin_exact)
next
  case False
  let ?v = "of_int k * (2::real) powi j"
  show ?thesis
  proof (cases "k = 0")
    case True
    then show ?thesis by (simp add: rnd_fin_0)
  next
    case k0: False
    have v0: "?v \<noteq> 0" using k0 by simp
    have "\<bar>k\<bar> < 2 ^ 53" using False k by linarith
    then have "(of_int \<bar>k\<bar> :: real) < of_int (2 ^ 53)" by (simp only: of_int_less_iff)
    then have "\<bar>?v\<bar> < 2 powi 53 * 2 powi j"
      by (simp add: abs_mult)
    then have lt: "\<bar>?v\<bar> < 2 powi (j + 53)" by (simp add: power_int_add)
    have "2 powi \<lfloor>log 2 \<bar>?v\<bar>\<rfloor> \<le> \<bar>?v\<bar>" by (rule floor_log2_bounds(1) [OF v0])
    with lt have "(2::real) powi \<lfloor>log 2 \<bar>?v\<bar>\<rfloor> < 2 powi (j + 53)" by linarith
    then have "\<lfloor>log 2 \<bar>?v\<bar>\<rfloor> < j + 53" by (smt (verit) power_int_increasing)
    then have e: "expo ?v - 52 \<le> j" using j by (simp add: expo_def)
    have "?v / ulp ?v = of_int k * (2 powi j / 2 powi (expo ?v - 52))"
      by (simp add: ulp_def)
    also have "\<dots> = of_int k * of_int (2 ^ nat (j - (expo ?v - 52)))"
      by (simp only: powi_quotient_int [OF e])
    also have "\<dots> = of_int (k * 2 ^ nat (j - (expo ?v - 52)))" by simp
    finally show ?thesis by (rule rnd_fin_exact)
  qed
qed

lemma rne_mantissa_bound:
  assumes "x \<noteq> 0"
  shows "\<bar>rne (x / ulp x)\<bar> \<le> 2 ^ 53"
proof -
  have "\<bar>x\<bar> < 2 powi (expo x + 1)" by (rule abs_less_expo [OF assms])
  also have "\<dots> = 2 ^ 53 * ulp x" by (simp add: ulp_def power_int_add power_int_diff)
  finally have "\<bar>x\<bar> / ulp x < 2 ^ 53" using ulp_pos [of x] by (simp add: field_simps)
  then have b: "\<bar>x / ulp x\<bar> < 2 ^ 53" using ulp_pos [of x] by simp
  have "x / ulp x \<le> 2 ^ 53" using b by linarith
  then have "x / ulp x \<le> of_int (2 ^ 53)" by simp
  then have up: "rne (x / ulp x) \<le> 2 ^ 53" by (rule rne_upper)
  have "- (2 ^ 53) \<le> x / ulp x" using b by linarith
  then have "of_int (- (2 ^ 53)) \<le> x / ulp x" by simp
  then have "- (2 ^ 53) \<le> rne (x / ulp x)" by (rule rne_lower)
  with up show ?thesis by simp
qed

lemma rnd_fin_idem: "rnd_fin (rnd_fin x) = rnd_fin x"
proof (cases "x = 0")
  case True
  then show ?thesis by (simp add: rnd_fin_0)
next
  case False
  have "rnd_fin (of_int (rne (x / ulp x)) * 2 powi (expo x - 52))
          = of_int (rne (x / ulp x)) * 2 powi (expo x - 52)"
    by (rule rnd_fin_representable [OF rne_mantissa_bound [OF False]])
       (use expo_ge [of x] in simp)
  then show ?thesis by (simp add: rnd_fin_def [of x] ulp_def)
qed

lemma rnd_fin_eval:
  assumes "2 powi e \<le> \<bar>x\<bar>" and "\<bar>x\<bar> < 2 powi (e + 1)" and "- 1022 \<le> e"
  shows "rnd_fin x = of_int (rne (x / 2 powi (e - 52))) * 2 powi (e - 52)"
  by (simp add: rnd_fin_def ulp_def expo_eq [OF assms])

lemma rnd_fin_eval_subnormal:
  assumes "\<bar>x\<bar> < 2 powi (- 1021)"
  shows "rnd_fin x = of_int (rne (x / 2 powi (- 1074))) * 2 powi (- 1074)"
proof (cases "x = 0")
  case True
  then show ?thesis by (simp add: rnd_fin_0 rne_def)
next
  case False
  then show ?thesis by (simp add: rnd_fin_def ulp_def expo_subnormal [OF False assms])
qed

lemma rne_mono: "m \<le> m' \<Longrightarrow> rne m \<le> rne m'"
proof -
  assume le: "m \<le> m'"
  then have f: "\<lfloor>m\<rfloor> \<le> \<lfloor>m'\<rfloor>" by (rule floor_mono)
  show ?thesis
  proof (cases "\<lfloor>m\<rfloor> = \<lfloor>m'\<rfloor>")
    case True
    then show ?thesis using le unfolding rne_def Let_def by auto
  next
    case False
    have "m \<le> of_int (\<lfloor>m\<rfloor> + 1)" by linarith
    then have "rne m \<le> \<lfloor>m\<rfloor> + 1" by (rule rne_upper)
    also have "\<dots> \<le> \<lfloor>m'\<rfloor>" using f False by linarith
    also have "\<dots> \<le> rne m'" by (rule rne_lower) simp
    finally show ?thesis .
  qed
qed

lemma expo_mono:
  assumes "x \<noteq> 0" and "\<bar>x\<bar> \<le> \<bar>y\<bar>"
  shows "expo x \<le> expo y"
proof -
  have "log 2 \<bar>x\<bar> \<le> log 2 \<bar>y\<bar>" using assms by (simp add: log_le_cancel_iff)
  then have "\<lfloor>log 2 \<bar>x\<bar>\<rfloor> \<le> \<lfloor>log 2 \<bar>y\<bar>\<rfloor>" by (rule floor_mono)
  then show ?thesis by (simp add: expo_def)
qed

lemma rnd_fin_upper: "\<bar>rnd_fin x\<bar> \<le> 2 powi (expo x + 1)"
proof (cases "x = 0")
  case True
  then show ?thesis by (simp add: rnd_fin_0)
next
  case False
  have "\<bar>rnd_fin x\<bar> = of_int \<bar>rne (x / ulp x)\<bar> * ulp x"
    using ulp_pos [of x] by (simp add: rnd_fin_def abs_mult)
  also have "\<dots> \<le> of_int (2 ^ 53) * ulp x"
  proof (rule mult_right_mono)
    show "(of_int \<bar>rne (x / ulp x)\<bar> :: real) \<le> of_int (2 ^ 53)"
      using rne_mantissa_bound [OF False] by (simp only: of_int_le_iff)
    show "0 \<le> ulp x" using ulp_pos [of x] by simp
  qed
  also have "\<dots> = 2 powi (expo x + 1)" by (simp add: ulp_def power_int_add power_int_diff)
  finally show ?thesis .
qed

lemma rnd_fin_lower:
  assumes "2 powi expo x \<le> x"
  shows "2 powi expo x \<le> rnd_fin x"
proof -
  have "2 ^ 52 * ulp x = 2 powi expo x" by (simp add: ulp_def power_int_diff)
  then have "of_int (2 ^ 52) \<le> x / ulp x" using assms ulp_pos [of x] by (simp add: field_simps)
  then have "2 ^ 52 \<le> rne (x / ulp x)" by (rule rne_lower)
  then have "(of_int (2 ^ 52) :: real) \<le> of_int (rne (x / ulp x))" by (simp only: of_int_le_iff)
  then have "of_int (2 ^ 52) * ulp x \<le> rnd_fin x"
    unfolding rnd_fin_def using ulp_pos [of x] by (intro mult_right_mono) simp_all
  then show ?thesis by (simp add: ulp_def power_int_diff)
qed

lemma rnd_fin_mono_pos:
  assumes "0 < x" and "x \<le> y"
  shows "rnd_fin x \<le> rnd_fin y"
proof -
  have xy: "x \<noteq> 0" "\<bar>x\<bar> \<le> \<bar>y\<bar>" using assms by simp_all
  have e: "expo x \<le> expo y" by (rule expo_mono [OF xy])
  show ?thesis
  proof (cases "expo x = expo y")
    case True
    then have u: "ulp x = ulp y" by (simp add: ulp_def)
    have "x / ulp y \<le> y / ulp y" using assms ulp_pos [of y] by (simp add: divide_right_mono)
    then have "rne (x / ulp y) \<le> rne (y / ulp y)" by (rule rne_mono)
    then have "(of_int (rne (x / ulp y)) :: real) \<le> of_int (rne (y / ulp y))" by simp
    then show ?thesis unfolding rnd_fin_def u using ulp_pos [of y]
      by (intro mult_right_mono) simp_all
  next
    case False
    then have lt: "expo x + 1 \<le> expo y" using e by simp
    then have "- 1022 < expo y" using expo_ge [of x] by simp
    then have "expo y = \<lfloor>log 2 \<bar>y\<bar>\<rfloor>" by (simp add: expo_def)
    moreover have "y \<noteq> 0" using assms by simp
    ultimately have "2 powi expo y \<le> \<bar>y\<bar>" using floor_log2_bounds(1) [of y] by simp
    then have ylow: "2 powi expo y \<le> y" using assms by simp
    have "rnd_fin x \<le> \<bar>rnd_fin x\<bar>" by simp
    also have "\<dots> \<le> 2 powi (expo x + 1)" by (rule rnd_fin_upper)
    also have "\<dots> \<le> 2 powi expo y" using lt by (intro power_int_increasing) simp_all
    also have "\<dots> \<le> rnd_fin y" by (rule rnd_fin_lower [OF ylow])
    finally show ?thesis .
  qed
qed

lemma rnd_fin_mono: "x \<le> y \<Longrightarrow> rnd_fin x \<le> rnd_fin y"
proof -
  assume le: "x \<le> y"
  consider "0 < x" | "x \<le> 0" "0 \<le> y" | "y < 0" by linarith
  then show ?thesis
  proof cases
    case 1
    then show ?thesis using le by (rule rnd_fin_mono_pos)
  next
    case 2
    then show ?thesis using rnd_fin_nonpos [of x] rnd_fin_nonneg [of y] by linarith
  next
    case 3
    then have "rnd_fin (- y) \<le> rnd_fin (- x)" using le by (intro rnd_fin_mono_pos) simp_all
    then show ?thesis by (simp add: rnd_fin_minus)
  qed
qed

lemma two_powi_double: "- 1074 \<le> j \<Longrightarrow> rnd_fin (2 powi j) = 2 powi j"
  using rnd_fin_representable [of 1 j] by simp

lemma rnd_overflow: "2 ^ 1024 \<le> x \<Longrightarrow> rnd x = PInf"
proof -
  assume "2 ^ 1024 \<le> x"
  then have "rnd_fin (2 ^ 1024) \<le> rnd_fin x" by (rule rnd_fin_mono)
  then have "2 ^ 1024 \<le> rnd_fin x" using two_powi_double [of 1024] by simp
  then show ?thesis by (simp add: rnd_def)
qed

lemma rnd_underflow: "x \<le> - (2 ^ 1024) \<Longrightarrow> rnd x = NInf"
proof -
  assume "x \<le> - (2 ^ 1024)"
  then have "rnd_fin x \<le> rnd_fin (- (2 ^ 1024))" by (rule rnd_fin_mono)
  then have "rnd_fin x \<le> - (2 ^ 1024)" using two_powi_double [of 1024] by (simp add: rnd_fin_minus)
  then show ?thesis by (simp add: rnd_def)
qed

lemma max_double_fixed: "rnd_fin max_double = max_double"
  using rnd_fin_representable [of "2 ^ 53 - 1" 971] by (simp add: max_double_def)

lemma rnd_finite:
  assumes "\<bar>x\<bar> \<le> max_double"
  shows "rnd x = Fin (rnd_fin x)" and "\<bar>rnd_fin x\<bar> \<le> max_double"
proof -
  have "rnd_fin x \<le> rnd_fin max_double" using assms by (intro rnd_fin_mono) simp
  moreover have "rnd_fin (- max_double) \<le> rnd_fin x" using assms by (intro rnd_fin_mono) simp
  ultimately show b: "\<bar>rnd_fin x\<bar> \<le> max_double"
    by (simp add: rnd_fin_minus max_double_fixed abs_le_iff)
  have "max_double < 2 ^ 1024" by (simp add: max_double_def)
  with b show "rnd x = Fin (rnd_fin x)" by (simp add: rnd_def Let_def abs_le_iff)
qed

lemma double_multiple:
  assumes "is_double r"
  shows "\<exists>n::int. r = of_int n * 2 powi (- 1074)"
proof -
  define u :: real where "u = 2 powi (- 1074)"
  have upos: "0 < u" by (simp add: u_def)
  have e: "- 1074 \<le> expo r - 52" using expo_ge [of r] by simp
  have q: "(2::real) powi (expo r - 52) / u = of_int (2 ^ nat (expo r - 52 - (- 1074)))"
    unfolding u_def by (rule powi_quotient_int [OF e])
  have "r = of_int (rne (r / ulp r)) * 2 powi (expo r - 52)"
    using assms by (simp add: is_double_def rnd_fin_def ulp_def)
  also have "(2::real) powi (expo r - 52) = (2 powi (expo r - 52) / u) * u"
    using upos by simp
  finally have "r = of_int (rne (r / ulp r) * 2 ^ nat (expo r - 52 - (- 1074))) * u"
    unfolding q by simp
  then show ?thesis unfolding u_def by blast
qed

lemma rnd_fin_nonzero:
  assumes "2 powi (- 1074) \<le> \<bar>x\<bar>"
  shows "rnd_fin x \<noteq> 0"
proof -
  define u :: real where "u = 2 powi (- 1074)"
  have upos: "0 < u" by (simp add: u_def)
  have fx: "rnd_fin u = u" unfolding u_def by (rule two_powi_double) simp
  have a: "u \<le> \<bar>x\<bar>" using assms by (simp only: u_def)
  show ?thesis
  proof (cases "0 \<le> x")
    case True
    then have "u \<le> x" using a by simp
    then have "rnd_fin u \<le> rnd_fin x" by (rule rnd_fin_mono)
    then show ?thesis using fx upos by linarith
  next
    case False
    then have "x \<le> - u" using a by simp
    then have "rnd_fin x \<le> rnd_fin (- u)" by (rule rnd_fin_mono)
    then show ?thesis using fx upos by (simp add: rnd_fin_minus)
  qed
qed

lemma double_diff_nonzero:
  assumes "is_double a" and "is_double b" and "a \<noteq> b"
  shows "rnd_fin (b - a) \<noteq> 0"
proof -
  define u :: real where "u = 2 powi (- 1074)"
  have upos: "0 < u" by (simp add: u_def)
  obtain n where n: "a = of_int n * u" using double_multiple [OF assms(1)] unfolding u_def by blast
  obtain m where m: "b = of_int m * u" using double_multiple [OF assms(2)] unfolding u_def by blast
  have nm: "m - n \<noteq> 0" using assms(3) n m by auto
  have "b - a = of_int (m - n) * u" by (simp add: n m left_diff_distrib)
  then have "\<bar>b - a\<bar> = of_int \<bar>m - n\<bar> * u" using upos by (simp add: abs_mult)
  moreover have "(1::real) \<le> of_int \<bar>m - n\<bar>" using nm by simp
  ultimately have "1 * u \<le> \<bar>b - a\<bar>" using upos by (simp only: mult_right_mono less_imp_le)
  then have "2 powi (- 1074) \<le> \<bar>b - a\<bar>" by (simp only: u_def mult_1)
  then show ?thesis by (rule rnd_fin_nonzero)
qed

section \<open>Properties of the double operations\<close>

lemma rnd_0: "rnd 0 = Fin 0"
  by (simp add: rnd_def rnd_fin_0)

lemma rnd_minus: "rnd (- x) = fneg (rnd x)"
  by (simp add: rnd_def rnd_fin_minus Let_def)

lemma rnd_cases:
  obtains "rnd x = PInf" "0 < rnd_fin x"
  | "rnd x = NInf" "rnd_fin x < 0"
  | "rnd x = Fin (rnd_fin x)" "\<bar>rnd_fin x\<bar> < 2 ^ 1024"
proof -
  have p: "(0::real) < 2 ^ 1024" by (rule zero_less_power) simp
  consider "2 ^ 1024 \<le> rnd_fin x" | "rnd_fin x \<le> - (2 ^ 1024)"
    | "\<not> 2 ^ 1024 \<le> rnd_fin x" "\<not> rnd_fin x \<le> - (2 ^ 1024)" by blast
  then show ?thesis
  proof cases
    case 1
    then have "rnd x = PInf" by (simp add: rnd_def)
    moreover have "0 < rnd_fin x" using 1 p by linarith
    ultimately show ?thesis by (rule that(1))
  next
    case 2
    then have lt: "rnd_fin x < 0" using p by linarith
    then have "\<not> 2 ^ 1024 \<le> rnd_fin x" using p by linarith
    then have "rnd x = NInf" using 2 by (simp add: rnd_def Let_def)
    then show ?thesis using lt by (rule that(2))
  next
    case 3
    then have "rnd x = Fin (rnd_fin x)" by (simp add: rnd_def Let_def)
    moreover have "\<bar>rnd_fin x\<bar> < 2 ^ 1024" using 3 by linarith
    ultimately show ?thesis by (rule that(3))
  qed
qed

lemma rnd_Fin_D: "rnd x = Fin r \<Longrightarrow> r = rnd_fin x \<and> \<bar>r\<bar> < 2 ^ 1024"
  unfolding rnd_def Let_def by (auto split: if_splits)

lemma rnd_canonical: "canonical (rnd x)"
proof (cases x rule: rnd_cases)
  case 3
  then show ?thesis by (simp add: canonical_def is_double_def rnd_fin_idem)
qed (simp_all add: canonical_def)

lemma fadd_canonical: "canonical (fadd a b)"
  by (cases a; cases b) (simp_all add: rnd_canonical, simp_all add: canonical_def)

lemma fneg_canonical: "canonical a \<Longrightarrow> canonical (fneg a)"
  by (cases a) (simp_all add: canonical_def is_double_def rnd_fin_minus)

lemma fsub_canonical: "canonical (fsub a b)"
  by (simp add: fsub_def fadd_canonical)

lemma fmul_canonical: "canonical (fmul a b)"
  by (cases a; cases b) (simp_all add: rnd_canonical, simp_all add: canonical_def)

lemma rnd_fixed: "is_double r \<Longrightarrow> rnd r = Fin r"
  by (simp add: is_double_def rnd_def Let_def abs_less_iff)

lemma fadd_zero_left: "canonical t \<Longrightarrow> fadd (Fin 0) t = t"
  by (cases t) (simp_all add: canonical_def rnd_fixed)

lemma fadd_zero_right: "canonical t \<Longrightarrow> fadd t (Fin 0) = t"
  by (cases t) (simp_all add: canonical_def rnd_fixed)

lemma fneg_fneg: "fneg (fneg a) = a"
  by (cases a) simp_all

lemma fadd_fneg: "fadd (fneg a) (fneg b) = fneg (fadd a b)"
  by (cases a; cases b) (simp_all flip: rnd_minus)


lemma fsub_swap: "fsub b a = fneg (fsub a b)"
proof -
  have "fsub b a = fadd (fneg a) (fneg (fneg b))"
    by (cases a; cases b) (simp_all add: fsub_def add.commute)
  then show ?thesis by (simp add: fsub_def fadd_fneg)
qed




lemma fadd_self_neg: "fadd t (fneg t) = Fin 0 \<or> fadd t (fneg t) = NaN"
  by (cases t) (simp_all add: rnd_0)

section \<open>Degenerate polygons in double precision\<close>

lemma upt_1: "[0..<1] = [0]"
  by simp

lemma rnd_bounded_power:
  assumes "\<bar>x\<bar> \<le> 2 ^ n" and "n < 1024"
  shows "rnd x = Fin (rnd_fin x)" and "\<bar>rnd_fin x\<bar> \<le> 2 ^ n"
proof -
  have fx: "rnd_fin (2 ^ n) = 2 ^ n" using two_powi_double [of "int n"] by simp
  have "rnd_fin x \<le> rnd_fin (2 ^ n)" using assms(1) by (intro rnd_fin_mono) simp
  moreover have "rnd_fin (- (2 ^ n)) \<le> rnd_fin x" using assms(1) by (intro rnd_fin_mono) simp
  ultimately show b: "\<bar>rnd_fin x\<bar> \<le> 2 ^ n" by (simp add: fx rnd_fin_minus abs_le_iff)
  have "(2::real) ^ n < 2 ^ 1024" using assms(2) by (intro power_strict_increasing) simp_all
  with b have "\<bar>rnd_fin x\<bar> < 2 ^ 1024" by linarith
  then show "rnd x = Fin (rnd_fin x)" by (simp add: rnd_def Let_def abs_less_iff)
qed

lemma halve_zero: "fdiv (fabs (Fin 0)) (Fin 2) = Fin 0"
  by (simp add: rnd_0)

lemma halve_nan: "fdiv (fabs NaN) (Fin 2) = NaN"
  by simp

lemma shoelace_sum_f64_nil: "shoelace_sum_f64 [] = Fin 0"
  by (simp add: shoelace_sum_f64_def)

lemma shoelace_sum_f64_one:
  "shoelace_sum_f64 [(x, y)] = fadd (Fin 0) (fsub (fmul x y) (fmul x y))"
  by (simp add: shoelace_sum_f64_def)

lemma shoelace_sum_f64_two:
  "shoelace_sum_f64 [(x1, y1), (x2, y2)] =
     fadd (fadd (Fin 0) (fsub (fmul x1 y2) (fmul x2 y1))) (fsub (fmul x2 y1) (fmul x1 y2))"
  by (simp add: shoelace_sum_f64_def upt_2)

lemma cancel_pair:
  "fadd (fadd (Fin 0) (fsub p q)) (fsub q p) = fadd (fsub p q) (fneg (fsub p q))"
  by (simp add: fadd_zero_left fsub_canonical fsub_swap [of q p])

lemma shoelace_sum_f64_short:
  assumes "length poly < 3"
  shows "shoelace_sum_f64 poly = Fin 0 \<or> shoelace_sum_f64 poly = NaN"
proof -
  consider "poly = []" | a where "poly = [a]" | a b where "poly = [a, b]"
    using assms by (cases poly; cases "tl poly"; cases "tl (tl poly)") auto
  then show ?thesis
  proof cases
    case 1
    then show ?thesis by (simp add: shoelace_sum_f64_nil)
  next
    case 2
    obtain x y where "a = (x, y)" by (cases a)
    with 2 show ?thesis
      using fadd_self_neg [of "fmul x y"]
      by (auto simp: shoelace_sum_f64_one fsub_def [symmetric] fadd_zero_left fsub_canonical
            simp del: fadd.simps)
  next
    case 3
    obtain x1 y1 where "a = (x1, y1)" by (cases a)
    moreover obtain x2 y2 where "b = (x2, y2)" by (cases b)
    ultimately show ?thesis
      using 3 fadd_self_neg [of "fsub (fmul x1 y2) (fmul x2 y1)"]
      by (simp add: shoelace_sum_f64_two cancel_pair)
  qed
qed

lemma polygon_area_f64_short:
  assumes "length poly < 3"
  shows "polygon_area_f64 poly = Fin 0 \<or> polygon_area_f64 poly = NaN"
  using shoelace_sum_f64_short [OF assms]
  by (auto simp: polygon_area_f64_def rnd_0)

lemma fmul_bounded:
  assumes "bounded_by (2 ^ 500) x" and "bounded_by (2 ^ 500) y"
  shows "bounded_by (2 ^ 1000) (fmul x y)"
proof -
  obtain a where a: "x = Fin a" "\<bar>a\<bar> \<le> 2 ^ 500" using assms(1) by (cases x) simp_all
  obtain b where b: "y = Fin b" "\<bar>b\<bar> \<le> 2 ^ 500" using assms(2) by (cases y) simp_all
  have "\<bar>a * b\<bar> \<le> 2 ^ 500 * 2 ^ 500"
    unfolding abs_mult using a(2) b(2) by (intro mult_mono) simp_all
  then have "\<bar>a * b\<bar> \<le> 2 ^ 1000" by (simp add: power_add [symmetric])
  from rnd_bounded_power [OF this] show ?thesis by (simp add: a b)
qed

lemma fsub_bounded:
  assumes "bounded_by (2 ^ 1000) p" and "bounded_by (2 ^ 1000) q"
  shows "bounded_by (2 ^ 1001) (fsub p q)"
proof -
  obtain a where a: "p = Fin a" "\<bar>a\<bar> \<le> 2 ^ 1000" using assms(1) by (cases p) simp_all
  obtain b where b: "q = Fin b" "\<bar>b\<bar> \<le> 2 ^ 1000" using assms(2) by (cases q) simp_all
  have "\<bar>a - b\<bar> \<le> 2 ^ 1000 + 2 ^ 1000" using a(2) b(2) by linarith
  then have "\<bar>a + - b\<bar> \<le> 2 ^ 1001" by simp
  from rnd_bounded_power [OF this] show ?thesis by (simp add: a b fsub_def)
qed

lemma fadd_self_neg_bounded: "bounded_by B t \<Longrightarrow> fadd t (fneg t) = Fin 0"
  by (cases t) (simp_all add: rnd_0)

lemma polygon_area_f64_short_bounded:
  assumes "length poly < 3" and "coords_bounded (2 ^ 500) poly"
  shows "polygon_area_f64 poly = Fin 0"
proof -
  consider "poly = []" | a where "poly = [a]" | a b where "poly = [a, b]"
    using assms(1) by (cases poly; cases "tl poly"; cases "tl (tl poly)") auto
  then have "shoelace_sum_f64 poly = Fin 0"
  proof cases
    case 1
    then show ?thesis by (simp add: shoelace_sum_f64_nil)
  next
    case 2
    obtain x y where xy: "a = (x, y)" by (cases a)
    have w: "bounded_by (2 ^ 500) x" "bounded_by (2 ^ 500) y"
      using assms(2) 2 xy by (simp_all add: coords_bounded_def)
    have "bounded_by (2 ^ 1000) (fmul x y)" by (rule fmul_bounded [OF w])
    then have "fadd (fmul x y) (fneg (fmul x y)) = Fin 0" by (rule fadd_self_neg_bounded)
    then show ?thesis
      by (simp add: 2 xy shoelace_sum_f64_one fsub_def rnd_0 del: fadd.simps) (simp add: rnd_0)
  next
    case 3
    obtain x1 y1 where a: "a = (x1, y1)" by (cases a)
    obtain x2 y2 where b: "b = (x2, y2)" by (cases b)
    have w: "bounded_by (2 ^ 500) x1" "bounded_by (2 ^ 500) y1" "bounded_by (2 ^ 500) x2" "bounded_by (2 ^ 500) y2"
      using assms(2) 3 a b by (simp_all add: coords_bounded_def)
    have "bounded_by (2 ^ 1001) (fsub (fmul x1 y2) (fmul x2 y1))"
      by (intro fsub_bounded fmul_bounded w)
    then have "fadd (fsub (fmul x1 y2) (fmul x2 y1)) (fneg (fsub (fmul x1 y2) (fmul x2 y1))) = Fin 0"
      by (rule fadd_self_neg_bounded)
    then show ?thesis by (simp add: 3 a b shoelace_sum_f64_two cancel_pair)
  qed
  then show ?thesis by (simp add: polygon_area_f64_def rnd_0)
qed

text \<open>
  Claim C6, amended.  For every polygon of fewer than three vertices \<^verbatim>\<open>is_convex\<close> returns
  false, and \<^verbatim>\<open>polygon_area\<close> returns 0.0 or nan; it returns 0.0 whenever every coordinate
  is finite and at most \<open>2\<^sup>5\<^sup>0\<^sup>0\<close> in magnitude, so that no product or difference
  overflows.  Neither function raises.
\<close>

theorem degenerate_results_f64:
  "length poly < 3 \<Longrightarrow>
     is_convex_f64 poly = False
     \<and> (polygon_area_f64 poly = Fin 0 \<or> polygon_area_f64 poly = NaN)
     \<and> (coords_bounded (2 ^ 500) poly \<longrightarrow> polygon_area_f64 poly = Fin 0)"
  by (simp add: is_convex_f64_def polygon_area_f64_short polygon_area_f64_short_bounded)

lemma rnd_small_int: "\<bar>k\<bar> \<le> 2 ^ 53 \<Longrightarrow> rnd (of_int k) = Fin (of_int k)"
proof -
  assume k: "\<bar>k\<bar> \<le> 2 ^ 53"
  have f: "rnd_fin (of_int k) = of_int k" using rnd_fin_representable [OF k, of 0] by simp
  have "\<bar>of_int k :: real\<bar> \<le> 2 ^ 53" using k by (metis of_int_abs of_int_le_iff of_int_numeral of_int_power)
  moreover have "(2::real) ^ 53 < 2 ^ 1024" by (rule power_strict_increasing) simp_all
  ultimately have "\<bar>of_int k :: real\<bar> < 2 ^ 1024" by linarith
  then show ?thesis by (simp add: rnd_def Let_def f abs_less_iff)
qed

theorem degenerate_results_f64_witness:
  "length [(Fin 0, Fin 0), (Fin 4, Fin 3)] < 3
   \<and> coords_bounded (2 ^ 500) [(Fin 0, Fin 0), (Fin 4, Fin 3)]
   \<and> is_convex_f64 [(Fin 0, Fin 0), (Fin 4, Fin 3)] = False
   \<and> polygon_area_f64 [(Fin 0, Fin 0), (Fin 4, Fin 3)] = Fin 0"
  using degenerate_results_f64 [of "[(Fin 0, Fin 0), (Fin 4, Fin 3)]"]
  by (simp add: coords_bounded_def)

text \<open>
  Claim C6, as stated: \<^verbatim>\<open>polygon_area\<close> returns 0 for every polygon of fewer than three
  vertices.  For the single vertex \<open>(2\<^sup>7\<^sup>0\<^sup>0, 2\<^sup>7\<^sup>0\<^sup>0)\<close> the product overflows to infinity,
  the difference of the two infinities is nan, and so is the area.
\<close>

theorem degenerate_area_overflow_counterexample:
  "\<not> (length [(Fin (2 ^ 700), Fin (2 ^ 700))] < 3 \<longrightarrow>
        polygon_area_f64 [(Fin (2 ^ 700), Fin (2 ^ 700))] = Fin 0
        \<and> is_convex_f64 [(Fin (2 ^ 700), Fin (2 ^ 700))] = False)"
proof -
  have "(2::real) ^ 1024 \<le> 2 ^ 700 * 2 ^ 700"
    unfolding power_add [symmetric] by (rule power_increasing) simp_all
  then have "fmul (Fin (2 ^ 700)) (Fin (2 ^ 700)) = PInf"
    unfolding fmul.simps by (rule rnd_overflow)
  then have "polygon_area_f64 [(Fin (2 ^ 700), Fin (2 ^ 700))] = NaN"
    by (simp only: polygon_area_f64_def shoelace_sum_f64_one fsub_def fneg.simps fadd.simps
          fabs.simps fdiv.simps)
  then show ?thesis by simp
qed

section \<open>The area under reflection, in double precision\<close>




lemma succ_index_less': "i < n \<Longrightarrow> (i + 1) mod n < (n::nat)"
  by (rule mod_less_divisor) linarith







lemma rnd_numeral: "(numeral n :: int) \<le> 2 ^ 53 \<Longrightarrow> rnd (numeral n) = Fin (numeral n)"
  using rnd_small_int [of "numeral n"] by simp

lemma rnd_neg_numeral: "(numeral n :: int) \<le> 2 ^ 53 \<Longrightarrow> rnd (- numeral n) = Fin (- numeral n)"
  using rnd_small_int [of "- numeral n"] by simp

lemma rnd_1: "rnd 1 = Fin 1"
  using rnd_small_int [of 1] by simp

lemma rnd_neg_1: "rnd (- 1) = Fin (- 1)"
  using rnd_small_int [of "- 1"] by simp

lemma rnd_eval:
  assumes "2 powi e \<le> \<bar>x\<bar>" and "\<bar>x\<bar> < 2 powi (e + 1)" and "- 1022 \<le> e" and "e < 1023"
  shows "rnd x = Fin (of_int (rne (x / 2 powi (e - 52))) * 2 powi (e - 52))"
proof -
  have ex: "expo x = e" by (rule expo_eq [OF assms(1-3)])
  have "\<bar>rnd_fin x\<bar> \<le> 2 powi (e + 1)" using rnd_fin_upper [of x] by (simp add: ex)
  also have "\<dots> \<le> 2 powi 1023" using assms(4) by (intro power_int_increasing) simp_all
  also have "\<dots> < (2::real) powi 1024" by (intro power_int_strict_increasing) simp_all
  finally have "\<bar>rnd_fin x\<bar> < 2 ^ 1024" by simp
  then have "rnd x = Fin (rnd_fin x)" by (simp add: rnd_def Let_def abs_less_iff)
  then show ?thesis by (simp add: rnd_fin_eval [OF assms(1-3)])
qed







section \<open>Area laws\<close>



section \<open>Point in polygon, in double precision\<close>

lemma straddle_divisor_f64:
  assumes "canonical y1" and "canonical y2" and "fgt y1 y \<noteq> fgt y2 y"
  shows "fsub y2 y1 \<noteq> Fin 0"
proof (cases y1)
  case a: (Fin a)
  show ?thesis
  proof (cases y2)
    case b: (Fin b)
    have ne: "a \<noteq> b" using assms(3) a b by auto
    have da: "is_double a" and db: "is_double b"
      using assms(1,2) a b by (simp_all add: canonical_def)
    show ?thesis
    proof
      assume "fsub y2 y1 = Fin 0"
      then have "rnd (b - a) = Fin 0" by (simp add: a b fsub_def)
      then have "rnd_fin (b - a) = 0" using rnd_Fin_D by fastforce
      then show False using double_diff_nonzero [OF da db ne] by simp
    qed
  qed (simp_all add: a fsub_def)
next
  case PInf
  then show ?thesis using assms(3) by (cases y2) (simp_all add: fsub_def)
next
  case NInf
  then show ?thesis using assms(3) by (cases y2) (simp_all add: fsub_def)
next
  case NaN
  then show ?thesis by (cases y2) (simp_all add: fsub_def)
qed

lemma valid_polygon_nth:
  assumes "valid_polygon poly" and "i < length poly" and "poly ! i = (x, y)"
  shows "canonical x" and "canonical y"
proof -
  have "(x, y) \<in> set poly" using assms(2,3) by (metis nth_mem)
  then show "canonical x" and "canonical y"
    using assms(1) by (auto simp: valid_polygon_def list_all_iff)
qed

lemma pip_loop_f64_step:
  assumes "valid_polygon poly" and "i < length poly"
  shows "pip_loop_f64 poly x y (i # rest) inside =
     (if on_edge_within_tolerance_f64 (x, y) (edge_at_f64 poly i) then Inr True
      else pip_loop_f64 poly x y rest (inside \<noteq> ray_crosses_f64 (x, y) (edge_at_f64 poly i)))"
proof -
  obtain x1 y1 where p1: "poly ! i = (x1, y1)" by (cases "poly ! i")
  obtain x2 y2 where p2: "poly ! ((i + 1) mod length poly) = (x2, y2)"
    by (cases "poly ! ((i + 1) mod length poly)")
  have j: "(i + 1) mod length poly < length poly" by (rule succ_index_less' [OF assms(2)])
  have c1: "canonical y1" by (rule valid_polygon_nth(2) [OF assms p1])
  have c2: "canonical y2" by (rule valid_polygon_nth(2) [OF assms(1) j p2])
  show ?thesis
  proof (cases "fgt y1 y \<noteq> fgt y2 y")
    case True
    then have "fsub y2 y1 \<noteq> Fin 0" by (rule straddle_divisor_f64 [OF c1 c2])
    then show ?thesis
      using True p1 p2
      by (simp add: edge_at_f64_def on_edge_within_tolerance_f64_def ray_crosses_f64_def
            py_truediv_def del: One_nat_def)
  next
    case False
    then show ?thesis
      using p1 p2
      by (simp add: edge_at_f64_def on_edge_within_tolerance_f64_def ray_crosses_f64_def
            del: One_nat_def)
  qed
qed

lemma pip_loop_f64_spec:
  assumes "valid_polygon poly" and "\<forall>i\<in>set idxs. i < length poly"
  shows "pip_loop_f64 poly x y idxs inside =
     Inr (list_ex (on_edge_within_tolerance_f64 (x, y)) (map (edge_at_f64 poly) idxs)
          \<or> (inside \<noteq> odd (length (filter (ray_crosses_f64 (x, y)) (map (edge_at_f64 poly) idxs)))))"
  using assms(2)
proof (induction idxs arbitrary: inside)
  case Nil
  show ?case by simp
next
  case (Cons i rest)
  have i: "i < length poly" and r: "\<forall>i\<in>set rest. i < length poly" using Cons.prems by simp_all
  show ?case
    unfolding pip_loop_f64_step [OF assms(1) i] Cons.IH [OF r] by auto
qed

lemma point_in_polygon_f64_spec:
  assumes "valid_polygon poly"
  shows "point_in_polygon_f64 poly pt =
     Inr (list_ex (on_edge_within_tolerance_f64 pt) (polygon_edges_f64 poly)
          \<or> crossing_parity_f64 poly pt)"
proof -
  obtain x y where pt: "pt = (x, y)" by (cases pt)
  have "\<forall>i\<in>set [0..<length poly]. i < length poly" by simp
  from pip_loop_f64_spec [OF assms this] show ?thesis
    by (simp add: pt point_in_polygon_f64_def polygon_edges_f64_def crossing_parity_f64_def)
qed

lemma tolerance_value: "tolerance_f64 = Fin (4951760157141521 / 2 ^ 92)"
  unfolding tolerance_f64_def
  using rnd_eval [of "- 40" "1 / 10 ^ 12"] by (simp add: rne_def)

lemma is_double_numeral: "(numeral n :: int) \<le> 2 ^ 53 \<Longrightarrow> is_double (numeral n)"
proof -
  assume n: "(numeral n :: int) \<le> 2 ^ 53"
  have "rnd (numeral n) = Fin (numeral n)" by (rule rnd_numeral [OF n])
  then show ?thesis using rnd_Fin_D by (fastforce simp: is_double_def)
qed

lemma is_double_0: "is_double 0"
  by (simp add: is_double_def rnd_fin_0)

lemma rectangle_centre_inside_f64:
  "point_in_polygon_f64 (gen_rectangle_f64 (Fin 2) (Fin 2)) (Fin 1, Fin 1) = Inr True"
  by (simp add: point_in_polygon_f64_def gen_rectangle_f64_def upt_4 fmin_def fmax_def fgt_def
        fsub_def py_truediv_def tolerance_value rnd_0 rnd_1 rnd_neg_1 rnd_numeral rnd_neg_numeral)

lemma rectangle_far_outside_f64:
  "point_in_polygon_f64 (gen_rectangle_f64 (Fin 2) (Fin 2)) (Fin 3, Fin 3) = Inr False"
  by (simp add: point_in_polygon_f64_def gen_rectangle_f64_def upt_4 fmin_def fmax_def fgt_def
        fsub_def py_truediv_def tolerance_value rnd_0 rnd_1 rnd_neg_1 rnd_numeral rnd_neg_numeral)

lemma rectangle_on_edge_f64:
  "point_in_polygon_f64 (gen_rectangle_f64 (Fin 2) (Fin 2)) (Fin 0, Fin 1) = Inr True"
  by (simp add: point_in_polygon_f64_def gen_rectangle_f64_def upt_4 fmin_def fmax_def fgt_def
        fsub_def py_truediv_def tolerance_value rnd_0 rnd_1 rnd_neg_1 rnd_numeral rnd_neg_numeral)

text \<open>
  Claim C1.  In double arithmetic, on every polygon whose coordinates are floats,
  \<^verbatim>\<open>point_in_polygon\<close> returns true whenever the point is on some edge within tolerance
  (inside that edge's bounding box, the float cross term below the double \<^verbatim>\<open>1e-12\<close>), and
  otherwise returns the ray-casting parity.  On the 2 by 2 rectangle: (1,1) is inside,
  (3,3) is not, and the edge point (0,1) is inside.
\<close>

theorem point_in_polygon_f64_boundary_or_parity:
  "valid_polygon poly \<Longrightarrow>
   (list_ex (on_edge_within_tolerance_f64 pt) (polygon_edges_f64 poly)
      \<longrightarrow> point_in_polygon_f64 poly pt = Inr True)
   \<and> (\<not> list_ex (on_edge_within_tolerance_f64 pt) (polygon_edges_f64 poly)
      \<longrightarrow> point_in_polygon_f64 poly pt = Inr (crossing_parity_f64 poly pt))
   \<and> point_in_polygon_f64 (gen_rectangle_f64 (Fin 2) (Fin 2)) (Fin 1, Fin 1) = Inr True
   \<and> point_in_polygon_f64 (gen_rectangle_f64 (Fin 2) (Fin 2)) (Fin 3, Fin 3) = Inr False
   \<and> point_in_polygon_f64 (gen_rectangle_f64 (Fin 2) (Fin 2)) (Fin 0, Fin 1) = Inr True"
  by (simp add: point_in_polygon_f64_spec rectangle_centre_inside_f64 rectangle_far_outside_f64
        rectangle_on_edge_f64)

lemma rectangle_edges_f64:
  "polygon_edges_f64 (gen_rectangle_f64 w h) =
     [((Fin 0, Fin 0), (Fin 0, h)), ((Fin 0, h), (w, h)), ((w, h), (w, Fin 0)),
      ((w, Fin 0), (Fin 0, Fin 0))]"
  by (simp add: polygon_edges_f64_def gen_rectangle_f64_def upt_4 edge_at_f64_def)

lemma rectangle_2_valid: "valid_polygon (gen_rectangle_f64 (Fin 2) (Fin 2))"
  by (simp add: valid_polygon_def gen_rectangle_f64_def canonical_def is_double_0 is_double_numeral)

theorem point_in_polygon_f64_boundary_or_parity_witness:
  "valid_polygon (gen_rectangle_f64 (Fin 2) (Fin 2))
   \<and> list_ex (on_edge_within_tolerance_f64 (Fin 0, Fin 1))
        (polygon_edges_f64 (gen_rectangle_f64 (Fin 2) (Fin 2)))
   \<and> point_in_polygon_f64 (gen_rectangle_f64 (Fin 2) (Fin 2)) (Fin 0, Fin 1) = Inr True
   \<and> \<not> list_ex (on_edge_within_tolerance_f64 (Fin 1, Fin 1))
          (polygon_edges_f64 (gen_rectangle_f64 (Fin 2) (Fin 2)))
   \<and> crossing_parity_f64 (gen_rectangle_f64 (Fin 2) (Fin 2)) (Fin 1, Fin 1)
   \<and> point_in_polygon_f64 (gen_rectangle_f64 (Fin 2) (Fin 2)) (Fin 1, Fin 1)
       = Inr (crossing_parity_f64 (gen_rectangle_f64 (Fin 2) (Fin 2)) (Fin 1, Fin 1))"
proof -
  have a: "list_ex (on_edge_within_tolerance_f64 (Fin 0, Fin 1))
             (polygon_edges_f64 (gen_rectangle_f64 (Fin 2) (Fin 2)))"
    by (simp add: rectangle_edges_f64 on_edge_within_tolerance_f64_def fmin_def fmax_def fgt_def
          fsub_def tolerance_value rnd_0 rnd_1 rnd_neg_1 rnd_numeral rnd_neg_numeral)
  have b: "\<not> list_ex (on_edge_within_tolerance_f64 (Fin 1, Fin 1))
             (polygon_edges_f64 (gen_rectangle_f64 (Fin 2) (Fin 2)))"
    by (simp add: rectangle_edges_f64 on_edge_within_tolerance_f64_def fmin_def fmax_def fgt_def
          fsub_def tolerance_value rnd_0 rnd_1 rnd_neg_1 rnd_numeral rnd_neg_numeral)
  have c: "crossing_parity_f64 (gen_rectangle_f64 (Fin 2) (Fin 2)) (Fin 1, Fin 1)"
    by (simp add: crossing_parity_f64_def rectangle_edges_f64 ray_crosses_f64_def fgt_def fsub_def
          rnd_0 rnd_1 rnd_neg_1 rnd_numeral rnd_neg_numeral)
  show ?thesis
    using a b c rectangle_2_valid
      point_in_polygon_f64_boundary_or_parity
        [OF rectangle_2_valid, of "(Fin 0, Fin 1)"]
      point_in_polygon_f64_boundary_or_parity
        [OF rectangle_2_valid, of "(Fin 1, Fin 1)"]
    by simp
qed

end
